theory Spec2Isabelle
  imports Main "HOL-Library.Sublist"
begin

section \<open>Variable resolution of cheatmd: a shallow embedding\<close>

text \<open>
  The development follows \<^verbatim>\<open>internal/ui/resolve.go\<close> (pattern scanner, definition
  collector, value source resolver, resolution session) and the two Bubble Tea models
  of the variable screens (list selection and text entry).

  Go strings are byte sequences, modelled as \<^typ>\<open>string\<close> (a list of 8-bit characters).
  Indices and lengths are \<^typ>\<open>nat\<close>: the source only indexes inside \<open>[0, len)\<close> and
  lengths stay far below the range of a 64-bit \<open>int\<close>.
\<close>

subsection \<open>Pattern scanner\<close>

text \<open>\<^verbatim>\<open>isVarChar(c byte, first bool)\<close>: letters and underscore always, digits unless first.\<close>

definition isVarChar :: "char \<Rightarrow> bool \<Rightarrow> bool" where
  "isVarChar c first =
     (let n = (of_char c :: nat) in
      if (97 \<le> n \<and> n \<le> 122) \<or> (65 \<le> n \<and> n \<le> 90) \<or> c = CHR ''_'' then True
      else \<not> first \<and> 48 \<le> n \<and> n \<le> 57)"

text \<open>
  The inner loop \<^verbatim>\<open>for j < len(cmd) && isVarChar(cmd[j], j == i+1) { j++ }\<close>;
  \<open>i\<close> is the position of the dollar sign.
\<close>

function scanName :: "string \<Rightarrow> nat \<Rightarrow> nat \<Rightarrow> nat" where
  "scanName cmd i j =
     (if j < length cmd \<and> isVarChar (cmd ! j) (j = i + 1) then scanName cmd i (j + 1) else j)"
  by pat_completeness auto
termination
  by (relation "measure (\<lambda>(cmd, i, j). length cmd - j)") auto

declare scanName.simps [simp del]

lemma scanName_ge: "j \<le> scanName cmd i j"
proof (induction cmd i j rule: scanName.induct)
  case (1 cmd i j)
  show ?case
  proof (cases "j < length cmd \<and> isVarChar (cmd ! j) (j = i + 1)")
    case True
    then have "scanName cmd i j = scanName cmd i (j + 1)"
      by (subst scanName.simps) auto
    with 1 True show ?thesis by simp
  next
    case False
    then have "scanName cmd i j = j" by (subst scanName.simps) auto
    then show ?thesis by simp
  qed
qed

text \<open>Reading a Go \<^verbatim>\<open>map[string]string\<close>: a missing key reads as the empty string.\<close>

definition scopeGet :: "(string \<rightharpoonup> string) \<Rightarrow> string \<Rightarrow> string" where
  "scopeGet sc k = (case sc k of None \<Rightarrow> [] | Some v \<Rightarrow> v)"

text \<open>The substring \<^verbatim>\<open>s[a:b]\<close>, used by the source with \<open>a \<le> b \<le> len(s)\<close> only.\<close>

definition slice :: "string \<Rightarrow> nat \<Rightarrow> nat \<Rightarrow> string" where
  "slice s a b = take (b - a) (drop a s)"

text \<open>
  The outer loop of \<^verbatim>\<open>findCommandVars\<close>, one call per iteration, with the
  accumulated \<open>vars\<close> and the \<open>seen\<close> map. The known scope may be \<open>nil\<close>
  (\<^term>\<open>None\<close>). After a scan the source sets \<open>i = j - 1\<close> and the loop header
  increments it, so the next iteration starts at \<open>j\<close>.
\<close>

function findLoop ::
  "string \<Rightarrow> (string \<rightharpoonup> string) option \<Rightarrow> nat \<Rightarrow> string list \<Rightarrow> (string \<Rightarrow> bool) \<Rightarrow> string list" where
  "findLoop cmd scope i vars seen =
     (if \<not> i < length cmd then vars
      else if cmd ! i \<noteq> CHR ''$'' \<or> i + 1 \<ge> length cmd then findLoop cmd scope (i + 1) vars seen
      else if i > 0 \<and> cmd ! (i - 1) = CHR 0x5C then findLoop cmd scope (i + 1) vars seen
      else let j = scanName cmd i (i + 1) in
        if j > i + 1 then
          (let varName = slice cmd (i + 1) j in
           if \<not> seen varName \<and> (scope = None \<or> scopeGet (the scope) varName = [])
           then findLoop cmd scope j (vars @ [varName]) (seen(varName := True))
           else findLoop cmd scope j vars seen)
        else findLoop cmd scope j vars seen)"
  by pat_completeness auto
termination
proof (relation "measure (\<lambda>(cmd, scope, i, vars, seen). length cmd - i)", goal_cases)
  case 1 show ?case by simp
next
  case (2 cmd scope i vars seen) then show ?case by simp
next
  case (3 cmd scope i vars seen) then show ?case by auto
next
  case (4 cmd scope i vars seen j varName)
  then show ?case using scanName_ge[of "Suc i" cmd i] by auto
next
  case (5 cmd scope i vars seen j varName)
  then show ?case using scanName_ge[of "Suc i" cmd i] by auto
next
  case (6 cmd scope i vars seen j)
  then show ?case using scanName_ge[of "Suc i" cmd i] by auto
qed

declare findLoop.simps [simp del]

definition findCommandVars :: "string \<Rightarrow> (string \<rightharpoonup> string) option \<Rightarrow> string list" where
  "findCommandVars cmd scope = findLoop cmd scope 0 [] (\<lambda>_. False)"

subsection \<open>The scanner's contract\<close>

text \<open>
  The contract in the specification's words: a name starts with a letter or underscore
  and continues with letters, digits or underscores; a reference is a dollar sign that is
  not immediately preceded by a backslash and is followed by a name; names are reported
  once, in first-occurrence order.
\<close>

definition letters :: string where
  "letters = ''abcdefghijklmnopqrstuvwxyzABCDEFGHIJKLMNOPQRSTUVWXYZ''"
definition digits :: string where
  "digits = ''0123456789''"
definition ident_start :: "char \<Rightarrow> bool" where
  "ident_start c = (c \<in> set letters \<or> c = CHR ''_'')"
definition ident_cont :: "char \<Rightarrow> bool" where
  "ident_cont c = (c \<in> set letters \<or> c \<in> set digits \<or> c = CHR ''_'')"

definition backslash :: char where "backslash = CHR 0x5C"

definition is_ref :: "string \<Rightarrow> nat \<Rightarrow> bool" where
  "is_ref cmd i =
     (i + 1 < length cmd \<and> cmd ! i = CHR ''$'' \<and> \<not> (0 < i \<and> cmd ! (i - 1) = backslash)
      \<and> ident_start (cmd ! (i + 1)))"

definition name_at :: "string \<Rightarrow> nat \<Rightarrow> string" where
  "name_at cmd i = takeWhile ident_cont (drop (i + 1) cmd)"

definition spec_names :: "string \<Rightarrow> string list" where
  "spec_names cmd = map (name_at cmd) (filter (is_ref cmd) [0..<length cmd])"

fun first_occ :: "'a list \<Rightarrow> 'a list" where
  "first_occ [] = []"
| "first_occ (x # xs) = x # first_occ (filter (\<lambda>y. y \<noteq> x) xs)"

definition known :: "(string \<rightharpoonup> string) option \<Rightarrow> string \<Rightarrow> bool" where
  "known scope n = (case scope of None \<Rightarrow> False
                    | Some sc \<Rightarrow> (case sc n of None \<Rightarrow> False | Some v \<Rightarrow> v \<noteq> []))"

fun acc_names :: "(string \<rightharpoonup> string) option \<Rightarrow> (string \<Rightarrow> bool) \<Rightarrow> string list \<Rightarrow> string list" where
  "acc_names scope seen [] = []"
| "acc_names scope seen (x # xs) =
     (if \<not> seen x \<and> \<not> known scope x then x # acc_names scope (seen(x := True)) xs
      else acc_names scope seen xs)"

lemma isVarChar_first: "isVarChar c True = ident_start c"
  by (cases c) (simp add: isVarChar_def ident_start_def letters_def)

lemma isVarChar_rest: "isVarChar c False = ident_cont c"
  by (cases c) (simp add: isVarChar_def ident_cont_def letters_def digits_def)

lemma acc_names_first_occ:
  "acc_names scope seen xs = first_occ (filter (\<lambda>x. \<not> seen x \<and> \<not> known scope x) xs)"
proof (induction xs arbitrary: seen)
  case Nil
  show ?case by simp
next
  case (Cons x xs)
  have eq: "filter (\<lambda>y. \<not> (seen(x := True)) y \<and> \<not> known scope y) ys
            = filter (\<lambda>y. y \<noteq> x) (filter (\<lambda>y. \<not> seen y \<and> \<not> known scope y) ys)" for ys
    by (induction ys) auto
  show ?case
  proof (cases "\<not> seen x \<and> \<not> known scope x")
    case True
    then have "acc_names scope seen (x # xs) = x # acc_names scope (seen(x := True)) xs"
      by simp
    also have "\<dots> = x # first_occ (filter (\<lambda>y. \<not> (seen(x := True)) y \<and> \<not> known scope y) xs)"
      by (simp only: Cons.IH)
    also have "\<dots> = x # first_occ (filter (\<lambda>y. y \<noteq> x) (filter (\<lambda>y. \<not> seen y \<and> \<not> known scope y) xs))"
      by (simp only: eq)
    also have "\<dots> = first_occ (filter (\<lambda>y. \<not> seen y \<and> \<not> known scope y) (x # xs))"
      using True by simp
    finally show ?thesis .
  next
    case False
    then show ?thesis by (auto simp: Cons.IH)
  qed
qed

lemma scanName_step:
  "j < length cmd \<Longrightarrow> isVarChar (cmd ! j) (j = i + 1) \<Longrightarrow> scanName cmd i j = scanName cmd i (j + 1)"
  by (subst scanName.simps) auto

lemma scanName_stop:
  "\<not> (j < length cmd \<and> isVarChar (cmd ! j) (j = i + 1)) \<Longrightarrow> scanName cmd i j = j"
  by (subst scanName.simps) auto

lemma scanName_props:
  "j \<le> length cmd \<Longrightarrow>
     scanName cmd i j \<le> length cmd
     \<and> (\<forall>k. j \<le> k \<and> k < scanName cmd i j \<longrightarrow> isVarChar (cmd ! k) (k = i + 1))
     \<and> (scanName cmd i j < length cmd \<longrightarrow> \<not> isVarChar (cmd ! scanName cmd i j) (scanName cmd i j = i + 1))"
proof (induction cmd i j rule: scanName.induct)
  case (1 cmd i j)
  show ?case
  proof (cases "j < length cmd \<and> isVarChar (cmd ! j) (j = i + 1)")
    case True
    then have eq: "scanName cmd i j = scanName cmd i (j + 1)" by (simp add: scanName_step)
    from True have "j + 1 \<le> length cmd" by simp
    with 1 True have ih: "scanName cmd i (j + 1) \<le> length cmd
     \<and> (\<forall>k. j + 1 \<le> k \<and> k < scanName cmd i (j + 1) \<longrightarrow> isVarChar (cmd ! k) (k = i + 1))
     \<and> (scanName cmd i (j + 1) < length cmd \<longrightarrow> \<not> isVarChar (cmd ! scanName cmd i (j + 1)) (scanName cmd i (j + 1) = i + 1))"
      by blast
    have "\<forall>k. j \<le> k \<and> k < scanName cmd i (j + 1) \<longrightarrow> isVarChar (cmd ! k) (k = i + 1)"
    proof (intro allI impI)
      fix k assume k: "j \<le> k \<and> k < scanName cmd i (j + 1)"
      show "isVarChar (cmd ! k) (k = i + 1)"
      proof (cases "k = j")
        case True with \<open>j < length cmd \<and> isVarChar (cmd ! j) (j = i + 1)\<close> show ?thesis by simp
      next
        case False with k ih show ?thesis by simp
      qed
    qed
    with ih show ?thesis unfolding eq by blast
  next
    case False
    then have eq: "scanName cmd i j = j" by (rule scanName_stop)
    from False 1(2) show ?thesis unfolding eq by auto
  qed
qed

lemma isVarChar_not_dollar: "isVarChar c b \<Longrightarrow> c \<noteq> CHR ''$''"
  by (auto simp: isVarChar_def split: if_splits)

lemma isVarChar_cont: "isVarChar c b \<Longrightarrow> ident_cont c"
  by (cases b) (auto simp: isVarChar_first isVarChar_rest ident_start_def ident_cont_def)

lemma known_code: "(scope = None \<or> scopeGet (the scope) n = []) = (\<not> known scope n)"
  by (auto simp: known_def scopeGet_def split: option.splits)

lemma refs_skip:
  assumes "i < length cmd" "\<not> is_ref cmd i"
  shows "filter (is_ref cmd) [i..<length cmd] = filter (is_ref cmd) [i + 1..<length cmd]"
  using assms by (simp add: upt_conv_Cons)

lemma refs_take:
  assumes "i < j" "j \<le> length cmd" "is_ref cmd i" "\<forall>k. i < k \<and> k < j \<longrightarrow> \<not> is_ref cmd k"
  shows "filter (is_ref cmd) [i..<length cmd] = i # filter (is_ref cmd) [j..<length cmd]"
proof -
  have "[i..<j + (length cmd - j)] = [i..<j] @ [j..<j + (length cmd - j)]"
    using assms(1) by (intro upt_add_eq_append) simp
  then have "[i..<length cmd] = [i..<j] @ [j..<length cmd]"
    using assms(2) by simp
  moreover have "[i..<j] = i # [i + 1..<j]"
    using assms(1) by (simp add: upt_conv_Cons)
  ultimately have "[i..<length cmd] = i # [i + 1..<j] @ [j..<length cmd]" by simp
  moreover have "filter (is_ref cmd) [i + 1..<j] = []"
    using assms(4) by (auto simp: filter_empty_conv)
  ultimately show ?thesis using assms(3) by simp
qed

lemma name_at_slice:
  assumes "i + 1 < j" "j \<le> length cmd"
    "\<forall>k. i + 1 \<le> k \<and> k < j \<longrightarrow> isVarChar (cmd ! k) (k = i + 1)"
    "j < length cmd \<longrightarrow> \<not> isVarChar (cmd ! j) (j = i + 1)"
  shows "name_at cmd i = slice cmd (i + 1) j"
  unfolding name_at_def slice_def
proof (rule takeWhile_eq_take_P_nth)
  fix m assume "m < j - (i + 1)" "m < length (drop (i + 1) cmd)"
  then have "i + 1 \<le> i + 1 + m \<and> i + 1 + m < j" by simp
  with assms(3) have "isVarChar (cmd ! (i + 1 + m)) (i + 1 + m = i + 1)" by blast
  then have "ident_cont (cmd ! (i + 1 + m))" by (rule isVarChar_cont)
  moreover have "drop (i + 1) cmd ! m = cmd ! (i + 1 + m)"
    using \<open>m < length (drop (i + 1) cmd)\<close> by simp
  ultimately show "ident_cont (drop (i + 1) cmd ! m)" by simp
next
  assume "j - (i + 1) < length (drop (i + 1) cmd)"
  then have "j < length cmd" using assms(1) by simp
  with assms(1,4) have "\<not> ident_cont (cmd ! j)" by (auto simp: isVarChar_rest)
  moreover have "drop (i + 1) cmd ! (j - (i + 1)) = cmd ! j" using assms(1,2) by simp
  ultimately show "\<not> ident_cont (drop (i + 1) cmd ! (j - (i + 1)))" by simp
qed

lemma findLoop_spec:
  "findLoop cmd scope i vars seen =
     vars @ acc_names scope seen (map (name_at cmd) (filter (is_ref cmd) [i..<length cmd]))"
proof (induction "length cmd - i" arbitrary: i vars seen rule: less_induct)
  case less
  note IH = less.hyps
  show ?case
  proof (cases "i < length cmd")
    case False
    then show ?thesis by (subst findLoop.simps) simp
  next
    case inb: True
    show ?thesis
    proof (cases "cmd ! i \<noteq> CHR ''$'' \<or> i + 1 \<ge> length cmd")
      case True
      then have nr: "\<not> is_ref cmd i" by (auto simp: is_ref_def)
      have "findLoop cmd scope i vars seen = findLoop cmd scope (i + 1) vars seen"
        using inb True by (subst findLoop.simps) simp
      also have "\<dots> = vars @ acc_names scope seen (map (name_at cmd) (filter (is_ref cmd) [i + 1..<length cmd]))"
        using inb by (intro IH) simp
      finally show ?thesis by (simp only: refs_skip[OF inb nr])
    next
      case dollar: False
      show ?thesis
      proof (cases "i > 0 \<and> cmd ! (i - 1) = CHR 0x5C")
        case True
        then have nr: "\<not> is_ref cmd i" by (auto simp: is_ref_def backslash_def)
        have "findLoop cmd scope i vars seen = findLoop cmd scope (i + 1) vars seen"
          using inb dollar True by (subst findLoop.simps) simp
        also have "\<dots> = vars @ acc_names scope seen (map (name_at cmd) (filter (is_ref cmd) [i + 1..<length cmd]))"
          using inb by (intro IH) simp
        finally show ?thesis by (simp only: refs_skip[OF inb nr])
      next
        case unesc: False
        define j where "j = scanName cmd i (i + 1)"
        have j_ge: "i + 1 \<le> j" unfolding j_def by (rule scanName_ge)
        have "i + 1 \<le> length cmd" using dollar by simp
        from scanName_props[OF this, of i] have
          j_le: "j \<le> length cmd"
          and j_all: "\<forall>k. i + 1 \<le> k \<and> k < j \<longrightarrow> isVarChar (cmd ! k) (k = i + 1)"
          and j_end: "j < length cmd \<longrightarrow> \<not> isVarChar (cmd ! j) (j = i + 1)"
          unfolding j_def by blast+
        have rec: "findLoop cmd scope j vs sn =
            vs @ acc_names scope sn (map (name_at cmd) (filter (is_ref cmd) [j..<length cmd]))" for vs sn
          using inb j_ge by (intro IH) simp
        show ?thesis
        proof (cases "j > i + 1")
          case False
          with j_ge have j_eq: "j = i + 1" by simp
          with j_end dollar have "\<not> isVarChar (cmd ! (i + 1)) True" by simp
          then have nr: "\<not> is_ref cmd i" by (simp add: is_ref_def isVarChar_first)
          have "findLoop cmd scope i vars seen = findLoop cmd scope j vars seen"
            using inb dollar unesc False unfolding j_def by (subst findLoop.simps) (auto simp add: Let_def)
          then show ?thesis unfolding rec by (simp only: refs_skip[OF inb nr] j_eq)
        next
          case True
          define varName where "varName = slice cmd (i + 1) j"
          from j_all True have "isVarChar (cmd ! (i + 1)) True" by auto
          then have ir: "is_ref cmd i"
            using dollar unesc by (simp add: is_ref_def isVarChar_first backslash_def)
          have nr: "\<forall>k. i < k \<and> k < j \<longrightarrow> \<not> is_ref cmd k"
          proof (intro allI impI)
            fix k assume "i < k \<and> k < j"
            with j_all have "isVarChar (cmd ! k) (k = i + 1)" by simp
            then have "cmd ! k \<noteq> CHR ''$''" by (rule isVarChar_not_dollar)
            then show "\<not> is_ref cmd k" by (simp add: is_ref_def)
          qed
          have "i < j" using True by simp
          from refs_take[OF this j_le ir nr]
          have refs: "filter (is_ref cmd) [i..<length cmd] = i # filter (is_ref cmd) [j..<length cmd]" .
          have nm: "name_at cmd i = varName"
            unfolding varName_def by (rule name_at_slice[OF True j_le j_all j_end])
          show ?thesis
          proof (cases "\<not> seen varName \<and> \<not> known scope varName")
            case add: True
            have "findLoop cmd scope i vars seen = findLoop cmd scope j (vars @ [varName]) (seen(varName := True))"
              using inb dollar unesc True add unfolding j_def varName_def
              by (subst findLoop.simps) (auto simp add: Let_def known_code)
            then show ?thesis unfolding rec refs using add by (simp add: nm)
          next
            case noadd: False
            have "findLoop cmd scope i vars seen = findLoop cmd scope j vars seen"
              using inb dollar unesc True noadd unfolding j_def varName_def
              by (subst findLoop.simps) (auto simp add: Let_def known_code)
            then show ?thesis unfolding rec refs using noadd by (auto simp add: nm)
          qed
        qed
      qed
    qed
  qed
qed

lemma first_occ_set: "set (first_occ xs) = set xs"
  by (induction xs rule: first_occ.induct) auto

lemma first_occ_distinct: "distinct (first_occ xs)"
  by (induction xs rule: first_occ.induct) (auto simp: first_occ_set)

text \<open>
  Claim C7. For every command template and optional known scope, \<open>findCommandVars\<close>
  returns the names of the unescaped \<open>$name\<close> tokens (\<open>spec_names\<close>: a dollar sign
  not preceded by a backslash and followed by a letter or underscore, the name being the
  longest run of letters, digits and underscores after it), without the names bound to a
  non-empty value in the known scope, each name once, in the order of first occurrence.
  \<open>deploy $env to $env-$region\<close> with no known scope yields \<open>env, region\<close>.
\<close>

theorem findCommandVars_first_occurrence:
  "findCommandVars cmd scope = first_occ (filter (\<lambda>n. \<not> known scope n) (spec_names cmd))
   \<and> distinct (findCommandVars cmd scope)
   \<and> findCommandVars ''deploy $env to $env-$region'' None = [''env'', ''region'']"
proof -
  have a: "findCommandVars c s = first_occ (filter (\<lambda>n. \<not> known s n) (spec_names c))" for c s
    by (simp add: findCommandVars_def findLoop_spec acc_names_first_occ spec_names_def)
  have b: "first_occ (filter (\<lambda>n. \<not> known None n) (spec_names ''deploy $env to $env-$region''))
           = [''env'', ''region'']"
    by code_simp
  show ?thesis
    by (simp only: a b first_occ_distinct simp_thms)
qed

theorem findCommandVars_first_occurrence_witness:
  "findCommandVars (''a '' @ [backslash] @ ''$x $y1 $9 $y1-$z $'') (Some [''z'' \<mapsto> ''v''])
     = [''y1'']"
proof -
  have "first_occ (filter (\<lambda>n. \<not> known (Some [''z'' \<mapsto> ''v'']) n)
          (spec_names (''a '' @ [backslash] @ ''$x $y1 $9 $y1-$z $''))) = [''y1'']"
    by code_simp
  with findCommandVars_first_occurrence
         [of "''a '' @ [backslash] @ ''$x $y1 $9 $y1-$z $''" "Some [''z'' \<mapsto> ''v'']"]
  show ?thesis by (simp only:)
qed

subsection \<open>Definition collector\<close>

text \<open>
  The parser's records, with the fields the resolver reads: a variable definition
  (\<^verbatim>\<open>parser.VarDef\<close>), an importable module, a cheat and the index of modules.
  The fields of a module are prefixed with \<open>m\<close>, since a cheat has fields of the same
  names. \<^verbatim>\<open>index.Modules\<close> is a Go map, hence finite: it is an association list
  read with \<^const>\<open>map_of\<close>.
\<close>

record VarDef =
  Name :: string
  Shell :: string
  Args :: string

record Module =
  mImports :: "string list"
  mVars :: "VarDef list"

record Cheat =
  Command :: string
  Imports :: "string list"
  Vars :: "VarDef list"
  Scope :: "string \<rightharpoonup> string"

record CheatIndex =
  Modules :: "(string \<times> Module) list"

text \<open>\<^verbatim>\<open>varState\<close>; the field \<^verbatim>\<open>value\<close> is named \<open>val\<close>.\<close>

record varState =
  def :: VarDef
  val :: string
  resolved :: bool
  prefill :: string

text \<open>
  The inner loop of \<^verbatim>\<open>collectFromImports\<close> over a module's variables:
  a definition is written only if the name has none yet.
\<close>

definition addVars :: "VarDef list \<Rightarrow> (string \<rightharpoonup> VarDef) \<Rightarrow> (string \<rightharpoonup> VarDef)" where
  "addVars vs varDefs =
     fold (\<lambda>v d. if d (Name v) = None then d(Name v \<mapsto> v) else d) vs varDefs"

text \<open>
  The recursive closure \<^verbatim>\<open>collectFromImports\<close>. The \<open>seen\<close> map and
  \<open>varDefs\<close> are shared and mutated by every call: the state is passed and returned.
  Nothing in the definition bounds the recursion, so not returning is the value
  \<^term>\<open>None\<close>.
\<close>

partial_function (option) collectFromImports ::
  "(string \<times> Module) list \<Rightarrow> string list \<Rightarrow> (string \<Rightarrow> bool) \<times> (string \<rightharpoonup> VarDef)
     \<Rightarrow> ((string \<Rightarrow> bool) \<times> (string \<rightharpoonup> VarDef)) option" where
  "collectFromImports modules imports st =
     (case imports of
        [] \<Rightarrow> Some st
      | importName # rest \<Rightarrow>
          (case st of (seen, varDefs) \<Rightarrow>
             if seen importName then collectFromImports modules rest st
             else
               let seen1 = seen(importName := True) in
               (case map_of modules importName of
                  None \<Rightarrow> collectFromImports modules rest (seen1, varDefs)
                | Some m \<Rightarrow>
                    Option.bind (collectFromImports modules (mImports m) (seen1, varDefs))
                      (\<lambda>(seen2, varDefs2).
                         collectFromImports modules rest (seen2, addVars (mVars m) varDefs2)))))"

declare collectFromImports.simps [code]

definition newVarState :: "VarDef \<Rightarrow> varState" where
  "newVarState d = \<lparr>def = d, val = [], resolved = False, prefill = []\<rparr>"

text \<open>
  \<^verbatim>\<open>collectVariables\<close>: imports first, then the local definitions, which
  overwrite; then one state per used variable, in the scanner's order.
\<close>

definition collectVariables :: "Cheat \<Rightarrow> CheatIndex \<Rightarrow> varState list option" where
  "collectVariables cheat index =
     (let usedVars = findCommandVars (Command cheat) None in
      case collectFromImports (Modules index) (Imports cheat) (\<lambda>_. False, Map.empty) of
        None \<Rightarrow> None
      | Some (seen, varDefs0) \<Rightarrow>
          let varDefs = fold (\<lambda>v d. d(Name v \<mapsto> v)) (Vars cheat) varDefs0 in
          Some (map (\<lambda>varName.
                  case varDefs varName of
                    Some d \<Rightarrow> newVarState d
                  | None \<Rightarrow> newVarState \<lparr>Name = varName, Shell = [], Args = []\<rparr>) usedVars))"

lemma cfi_Nil: "collectFromImports ms [] st = Some st"
  by (subst collectFromImports.simps) simp

lemma cfi_seen:
  "seen n \<Longrightarrow> collectFromImports ms (n # rest) (seen, defs) = collectFromImports ms rest (seen, defs)"
  by (subst collectFromImports.simps) simp

lemma cfi_missing:
  "\<not> seen n \<Longrightarrow> map_of ms n = None \<Longrightarrow>
   collectFromImports ms (n # rest) (seen, defs) = collectFromImports ms rest (seen(n := True), defs)"
  by (subst collectFromImports.simps) simp

lemma cfi_module:
  "\<not> seen n \<Longrightarrow> map_of ms n = Some m \<Longrightarrow>
   collectFromImports ms (n # rest) (seen, defs) =
     Option.bind (collectFromImports ms (mImports m) (seen(n := True), defs))
       (\<lambda>(seen2, defs2). collectFromImports ms rest (seen2, addVars (mVars m) defs2))"
  by (subst collectFromImports.simps) simp

lemma addVars_first:
  "addVars vs defs n =
     (case defs n of Some d \<Rightarrow> Some d | None \<Rightarrow> find (\<lambda>v. Name v = n) vs)"
  unfolding addVars_def
  by (induction vs arbitrary: defs) (auto split: option.splits)

lemma addVars_keeps: "defs n = Some d \<Longrightarrow> addVars vs defs n = Some d"
  by (simp add: addVars_first)

lemma addVars_keyed: "addVars vs defs n = Some d \<Longrightarrow> defs n = Some d \<or> Name d = n"
  by (auto simp: addVars_first find_Some_iff split: option.splits)

definition unseen :: "(string \<times> Module) list \<Rightarrow> (string \<Rightarrow> bool) \<Rightarrow> string set" where
  "unseen ms seen = {n \<in> fst ` set ms. \<not> seen n}"

lemma finite_unseen: "finite (unseen ms seen)"
  by (simp add: unseen_def)

lemma unseen_mono: "(\<And>n. seen n \<Longrightarrow> seen' n) \<Longrightarrow> card (unseen ms seen') \<le> card (unseen ms seen)"
  by (rule card_mono[OF finite_unseen]) (auto simp: unseen_def)

lemma unseen_less:
  assumes "\<not> seen n" "map_of ms n = Some m"
  shows "card (unseen ms (seen(n := True))) < card (unseen ms seen)"
proof (rule psubset_card_mono[OF finite_unseen])
  from assms(2) have "n \<in> fst ` set ms" by (metis map_of_eq_None_iff option.distinct(1))
  with assms(1) have "n \<in> unseen ms seen" by (simp add: unseen_def)
  moreover have "n \<notin> unseen ms (seen(n := True))" by (simp add: unseen_def)
  moreover have "unseen ms (seen(n := True)) \<subseteq> unseen ms seen" by (auto simp: unseen_def)
  ultimately show "unseen ms (seen(n := True)) \<subset> unseen ms seen" by blast
qed

definition cfi_post ::
  "string list \<Rightarrow> (string \<Rightarrow> bool) \<times> (string \<rightharpoonup> VarDef) \<Rightarrow> (string \<Rightarrow> bool) \<times> (string \<rightharpoonup> VarDef) \<Rightarrow> bool" where
  "cfi_post imports st st' =
     ((\<forall>n. fst st n \<longrightarrow> fst st' n) \<and> (\<forall>n \<in> set imports. fst st' n)
      \<and> (\<forall>n d. snd st n = Some d \<longrightarrow> snd st' n = Some d)
      \<and> (\<forall>n d. snd st' n = Some d \<longrightarrow> snd st n = Some d \<or> Name d = n))"

lemma cfi_total_aux:
  "card (unseen ms seen) \<le> k \<Longrightarrow>
   \<exists>st'. collectFromImports ms imps (seen, defs) = Some st' \<and> cfi_post imps (seen, defs) st'"
proof (induction k arbitrary: imps seen defs rule: less_induct)
  case (less k)
  note outer = less.IH
  from less.prems show ?case
  proof (induction imps arbitrary: seen defs)
    case Nil
    show ?case by (simp add: cfi_Nil cfi_post_def)
  next
    case (Cons n rest)
    show ?case
    proof (cases "seen n")
      case True
      from Cons.IH[OF Cons.prems, of defs] obtain st' where
        r: "collectFromImports ms rest (seen, defs) = Some st'" and p: "cfi_post rest (seen, defs) st'"
        by blast
      from p True have "cfi_post (n # rest) (seen, defs) st'" by (auto simp: cfi_post_def)
      with r True show ?thesis by (simp add: cfi_seen)
    next
      case unseen_n: False
      let ?seen1 = "seen(n := True)"
      have "card (unseen ms ?seen1) \<le> card (unseen ms seen)"
        by (rule unseen_mono) simp
      with Cons.prems have le1: "card (unseen ms ?seen1) \<le> k" by simp
      show ?thesis
      proof (cases "map_of ms n")
        case None
        from Cons.IH[OF le1, of defs] obtain st' where
          r: "collectFromImports ms rest (?seen1, defs) = Some st'" and p: "cfi_post rest (?seen1, defs) st'"
          by blast
        from p have "cfi_post (n # rest) (seen, defs) st'"
          by (auto simp: cfi_post_def split: if_splits)
        with r unseen_n None show ?thesis by (simp add: cfi_missing)
      next
        case (Some m)
        have lt: "card (unseen ms ?seen1) < k"
          using unseen_less[where seen = seen and n = n and ms = ms and m = m] unseen_n Some Cons.prems
          by simp
        from outer[OF lt order_refl, of "mImports m" defs] obtain st2 where
          r2: "collectFromImports ms (mImports m) (?seen1, defs) = Some st2"
          and p2: "cfi_post (mImports m) (?seen1, defs) st2"
          by blast
        obtain seen2 defs2 where st2: "st2 = (seen2, defs2)" by (cases st2)
        have "card (unseen ms seen2) \<le> card (unseen ms ?seen1)"
          using p2 by (intro unseen_mono) (simp add: cfi_post_def st2)
        with le1 have le2: "card (unseen ms seen2) \<le> k" by simp
        from Cons.IH[OF le2, of "addVars (mVars m) defs2"] obtain st' where
          r: "collectFromImports ms rest (seen2, addVars (mVars m) defs2) = Some st'"
          and p: "cfi_post rest (seen2, addVars (mVars m) defs2) st'"
          by blast
        have key: "snd st' k = Some d \<longrightarrow> defs k = Some d \<or> Name d = k" for k d
        proof
          assume "snd st' k = Some d"
          with p have "addVars (mVars m) defs2 k = Some d \<or> Name d = k"
            by (simp add: cfi_post_def)
          then have "defs2 k = Some d \<or> Name d = k" by (auto dest: addVars_keyed)
          with p2 show "defs k = Some d \<or> Name d = k" by (auto simp: cfi_post_def st2)
        qed
        have "(\<forall>k. seen k \<longrightarrow> fst st' k) \<and> (\<forall>k \<in> set (n # rest). fst st' k)
              \<and> (\<forall>k d. defs k = Some d \<longrightarrow> snd st' k = Some d)"
          using p p2 unfolding cfi_post_def st2
          by (auto simp: addVars_keeps split: if_splits)
        with key have "cfi_post (n # rest) (seen, defs) st'"
          by (simp add: cfi_post_def)
        with r r2 unseen_n Some show ?thesis by (simp add: cfi_module st2)
      qed
    qed
  qed
qed

lemma cfi_total:
  "\<exists>st'. collectFromImports ms imps st = Some st' \<and> cfi_post imps st st'"
  using cfi_total_aux[OF order_refl, where ms = ms and seen = "fst st" and imps = imps and defs = "snd st"] by simp

text \<open>A cyclic import graph (\<open>a\<close> imports \<open>b\<close> and \<open>b\<close> imports \<open>a\<close>) for concrete evaluation.\<close>

definition ex_index :: CheatIndex where
  "ex_index = \<lparr>Modules = [(''a'', \<lparr>mImports = [''b''], mVars = [\<lparr>Name = ''x'', Shell = ''echo a'', Args = []\<rparr>]\<rparr>),
     (''b'', \<lparr>mImports = [''a''], mVars = [\<lparr>Name = ''x'', Shell = ''echo b'', Args = []\<rparr>, \<lparr>Name = ''y'', Shell = ''echo by'', Args = []\<rparr>]\<rparr>)]\<rparr>"

definition ex_cheat :: Cheat where
  "ex_cheat = \<lparr>Command = ''run $x $y $z $w'', Imports = [''a'', ''c''], Vars = [\<lparr>Name = ''z'', Shell = ''1'', Args = []\<rparr>, \<lparr>Name = ''z'', Shell = ''2'', Args = []\<rparr>], Scope = Map.empty\<rparr>"

lemma fold_local:
  "fold (\<lambda>v d. d(Name v \<mapsto> v)) vs d0 n =
     (case find (\<lambda>v. Name v = n) (rev vs) of Some d \<Rightarrow> Some d | None \<Rightarrow> d0 n)"
  by (induction vs rule: rev_induct) auto

text \<open>The local definition of a name: the last one written by the loop over the cheat's own definitions.\<close>

definition localDef :: "VarDef list \<Rightarrow> string \<Rightarrow> VarDef option" where
  "localDef vs n = find (\<lambda>v. Name v = n) (rev vs)"

definition synthetic :: "string \<Rightarrow> VarDef" where
  "synthetic n = \<lparr>Name = n, Shell = [], Args = []\<rparr>"

lemma collectVariables_eq:
  assumes "collectFromImports (Modules index) (Imports cheat) (\<lambda>_. False, Map.empty) = Some (seen, defs)"
  shows "collectVariables cheat index =
     Some (map (\<lambda>n. newVarState (case localDef (Vars cheat) n of Some d \<Rightarrow> d
                 | None \<Rightarrow> (case defs n of Some d \<Rightarrow> d | None \<Rightarrow> synthetic n)))
            (findCommandVars (Command cheat) None))"
  using assms
  by (auto simp: collectVariables_def Let_def fold_local localDef_def synthetic_def
           split: option.splits)

text \<open>
  Claim C6. Collection always produces one state per used variable (never an error):
  the state of a name carries the cheat's local definition when there is one, whatever the
  imports define; otherwise the definition the import traversal left for the name;
  otherwise a synthetic definition with the name and no value command. During the import
  traversal a definition once written for a name is never overwritten, neither by a later
  module nor by a later definition of the same module: the first write wins.
\<close>

theorem collectVariables_precedence:
  "(\<exists>seen defs.
      collectFromImports (Modules index) (Imports cheat) (\<lambda>_. False, Map.empty) = Some (seen, defs)
      \<and> collectVariables cheat index =
          Some (map (\<lambda>n. newVarState (case localDef (Vars cheat) n of Some d \<Rightarrow> d
                      | None \<Rightarrow> (case defs n of Some d \<Rightarrow> d | None \<Rightarrow> synthetic n)))
                 (findCommandVars (Command cheat) None)))
   \<and> (collectFromImports ms imps (seen0, defs0) = Some (seen1, defs1) \<longrightarrow>
        defs0 n = Some d \<longrightarrow> defs1 n = Some d)
   \<and> addVars vs defs0 n = (case defs0 n of Some d \<Rightarrow> Some d | None \<Rightarrow> find (\<lambda>v. Name v = n) vs)"
proof (intro conjI impI)
  from cfi_total[of "Modules index" "Imports cheat" "(\<lambda>_. False, Map.empty)"]
  obtain st where st: "collectFromImports (Modules index) (Imports cheat) (\<lambda>_. False, Map.empty) = Some st"
    by blast
  obtain seen defs where "st = (seen, defs)" by (cases st)
  with st collectVariables_eq[of index cheat seen defs]
  show "\<exists>seen defs.
      collectFromImports (Modules index) (Imports cheat) (\<lambda>_. False, Map.empty) = Some (seen, defs)
      \<and> collectVariables cheat index =
          Some (map (\<lambda>n. newVarState (case localDef (Vars cheat) n of Some d \<Rightarrow> d
                      | None \<Rightarrow> (case defs n of Some d \<Rightarrow> d | None \<Rightarrow> synthetic n)))
                 (findCommandVars (Command cheat) None))"
    by blast
next
  assume a: "collectFromImports ms imps (seen0, defs0) = Some (seen1, defs1)" and b: "defs0 n = Some d"
  from cfi_total[of ms imps "(seen0, defs0)"] a have "cfi_post imps (seen0, defs0) (seen1, defs1)"
    by auto
  with b show "defs1 n = Some d" by (simp add: cfi_post_def)
next
  show "addVars vs defs0 n = (case defs0 n of Some d \<Rightarrow> Some d | None \<Rightarrow> find (\<lambda>v. Name v = n) vs)"
    by (rule addVars_first)
qed

text \<open>
  Claim C9. The import traversal returns on every index, import list and state, cyclic
  import graphs included; every name it was given is marked as seen afterwards, marks are
  never removed, and a name already marked is skipped without being visited again.
  Hence variable collection returns on every cheat and index.
\<close>

theorem collectFromImports_terminates:
  "(\<exists>seen' defs'. collectFromImports ms imps (seen, defs) = Some (seen', defs')
       \<and> (\<forall>n. seen n \<longrightarrow> seen' n) \<and> (\<forall>n \<in> set imps. seen' n))
   \<and> (seen n0 \<longrightarrow> collectFromImports ms (n0 # rest) (seen, defs) = collectFromImports ms rest (seen, defs))
   \<and> (\<exists>vars. collectVariables cheat index = Some vars)"
proof (intro conjI impI)
  from cfi_total[of ms imps "(seen, defs)"]
  obtain st' where s: "collectFromImports ms imps (seen, defs) = Some st'" and p: "cfi_post imps (seen, defs) st'"
    by blast
  obtain seen' defs' where "st' = (seen', defs')" by (cases st')
  with s p show "\<exists>seen' defs'. collectFromImports ms imps (seen, defs) = Some (seen', defs')
       \<and> (\<forall>n. seen n \<longrightarrow> seen' n) \<and> (\<forall>n \<in> set imps. seen' n)"
    by (auto simp: cfi_post_def)
next
  assume "seen n0"
  then show "collectFromImports ms (n0 # rest) (seen, defs) = collectFromImports ms rest (seen, defs)"
    by (rule cfi_seen)
next
  from cfi_total[of "Modules index" "Imports cheat" "(\<lambda>_. False, Map.empty)"]
  obtain st where st: "collectFromImports (Modules index) (Imports cheat) (\<lambda>_. False, Map.empty) = Some st"
    by blast
  obtain seen defs where "st = (seen, defs)" by (cases st)
  with st collectVariables_eq[of index cheat seen defs]
  show "\<exists>vars. collectVariables cheat index = Some vars" by blast
qed

lemma ex_eval: "map_option (map (Shell \<circ> def)) (collectVariables ex_cheat ex_index) = Some [''echo b'', ''echo by'', ''2'', []]"
  by code_simp

theorem collectFromImports_terminates_witness:
  "(\<exists>seen' defs'.
      collectFromImports (Modules ex_index) [''a'', ''b'', ''a''] (\<lambda>n. n = ''b'', Map.empty) = Some (seen', defs')
      \<and> seen' ''a'' \<and> seen' ''b'')
   \<and> collectFromImports (Modules ex_index) (''b'' # [''a'']) (\<lambda>n. n = ''b'', Map.empty)
       = collectFromImports (Modules ex_index) [''a''] (\<lambda>n. n = ''b'', Map.empty)
   \<and> (\<exists>vars. collectVariables ex_cheat ex_index = Some vars)"
  using collectFromImports_terminates[of "Modules ex_index" "[''a'', ''b'', ''a'']" "\<lambda>n. n = ''b''"
          Map.empty "''b''" "[''a'']" ex_cheat ex_index]
  by auto

theorem collectVariables_precedence_witness:
  "(\<exists>seen1 defs1.
      collectFromImports (Modules ex_index) [''a''] (\<lambda>_. False, [''x'' \<mapsto> synthetic ''x'']) = Some (seen1, defs1)
      \<and> defs1 ''x'' = Some (synthetic ''x''))
   \<and> map_option (map (Shell \<circ> def)) (collectVariables ex_cheat ex_index)
       = Some [''echo b'', ''echo by'', ''2'', []]"
proof
  from cfi_total[of "Modules ex_index" "[''a'']" "(\<lambda>_. False, [''x'' \<mapsto> synthetic ''x''])"]
  obtain st where st: "collectFromImports (Modules ex_index) [''a''] (\<lambda>_. False, [''x'' \<mapsto> synthetic ''x'']) = Some st"
    by blast
  obtain seen1 defs1 where eq: "st = (seen1, defs1)" by (cases st)
  have "[''x'' \<mapsto> synthetic ''x''] ''x'' = Some (synthetic ''x'')" by simp
  with collectVariables_precedence[of ex_index ex_cheat "Modules ex_index" "[''a'']" "\<lambda>_. False"
        "[''x'' \<mapsto> synthetic ''x'']" seen1 defs1 "''x''" "synthetic ''x''"] st eq
  have "defs1 ''x'' = Some (synthetic ''x'')" by blast
  with st eq show "\<exists>seen1 defs1.
      collectFromImports (Modules ex_index) [''a''] (\<lambda>_. False, [''x'' \<mapsto> synthetic ''x'']) = Some (seen1, defs1)
      \<and> defs1 ''x'' = Some (synthetic ''x'')" by blast
next
  show "map_option (map (Shell \<circ> def)) (collectVariables ex_cheat ex_index)
       = Some [''echo b'', ''echo by'', ''2'', []]"
    by code_simp
qed

subsection \<open>String functions of the Go library\<close>

text \<open>
  \<^verbatim>\<open>strings.TrimSpace\<close>, \<^verbatim>\<open>ToLower\<close>, \<^verbatim>\<open>Fields\<close>, \<^verbatim>\<open>Split\<close> and
  \<^verbatim>\<open>ReplaceAll\<close> on ASCII text: white space is tab, line feed, vertical tab, form
  feed, carriage return and space; only \<open>A\<close> to \<open>Z\<close> change under \<open>ToLower\<close>. Go
  decodes UTF-8 and also treats some non-ASCII runes as space or as letters with a lower
  case; such text is outside this model.
\<close>

definition isSpace :: "char \<Rightarrow> bool" where
  "isSpace c = (c \<in> set [CHR 0x09, CHR 0x0A, CHR 0x0B, CHR 0x0C, CHR 0x0D, CHR '' ''])"

definition TrimSpace :: "string \<Rightarrow> string" where
  "TrimSpace s = rev (dropWhile isSpace (rev (dropWhile isSpace s)))"

definition toLowerChar :: "char \<Rightarrow> char" where
  "toLowerChar c = (let n = (of_char c :: nat) in if 65 \<le> n \<and> n \<le> 90 then char_of (n + 32) else c)"

definition ToLower :: "string \<Rightarrow> string" where
  "ToLower s = map toLowerChar s"

fun fieldsFrom :: "string \<Rightarrow> string \<Rightarrow> string list" where
  "fieldsFrom cur [] = (if cur = [] then [] else [cur])"
| "fieldsFrom cur (c # cs) =
     (if isSpace c then (if cur = [] then fieldsFrom [] cs else cur # fieldsFrom [] cs)
      else fieldsFrom (cur @ [c]) cs)"

definition Fields :: "string \<Rightarrow> string list" where
  "Fields s = fieldsFrom [] s"

fun splitFrom :: "char \<Rightarrow> string \<Rightarrow> string \<Rightarrow> string list" where
  "splitFrom sep cur [] = [cur]"
| "splitFrom sep cur (c # cs) =
     (if c = sep then cur # splitFrom sep [] cs else splitFrom sep (cur @ [c]) cs)"

definition SplitNL :: "string \<Rightarrow> string list" where
  "SplitNL s = splitFrom (CHR 0x0A) [] s"

text \<open>
  \<^verbatim>\<open>strings.ReplaceAll\<close>: non-overlapping occurrences, leftmost first. With an empty
  \<open>old\<close>, Go inserts \<open>new\<close> before every character and at the end; the resolver always
  passes a non-empty \<open>old\<close> (a dollar sign and a name).
\<close>

fun ReplaceAll :: "string \<Rightarrow> string \<Rightarrow> string \<Rightarrow> string" where
  "ReplaceAll [] old new = (if old = [] then new else [])"
| "ReplaceAll (c # cs) old new =
     (if old = [] then new @ c # ReplaceAll cs old new
      else if prefix old (c # cs) then new @ ReplaceAll (drop (length old - 1) cs) old new
      else c # ReplaceAll cs old new)"

text \<open>\<^verbatim>\<open>splitLines\<close>: the loop over \<^verbatim>\<open>strings.Split(s, "\n")\<close>, appending the non-empty trimmed lines.\<close>

definition splitLines :: "string \<Rightarrow> string list" where
  "splitLines s =
     foldl (\<lambda>lines line. let trimmed = TrimSpace line in
                          if trimmed \<noteq> [] then lines @ [trimmed] else lines)
           [] (SplitNL s)"

subsection \<open>The interactive screens\<close>

text \<open>
  A Bubble Tea message: a key press, carried as the text \<^verbatim>\<open>msg.String()\<close> that the
  models switch on, a window size, or anything else.
\<close>

datatype msg = KeyMsg string | WindowSizeMsg int int | OtherMsg

text \<open>
  The text field is the \<^verbatim>\<open>textinput.Model\<close> of the bubbles library, which is not
  part of the repository: its state is a type parameter and the operations the models
  call are parameters. Theorems hold for every text field; \<open>basicField\<close> below is a
  small one for concrete evaluation.
\<close>

record 'ti textinputOps =
  tiNew :: 'ti
  tiSetValue :: "string \<Rightarrow> 'ti \<Rightarrow> 'ti"
  tiValue :: "'ti \<Rightarrow> string"
  tiUpdate :: "msg \<Rightarrow> 'ti \<Rightarrow> 'ti"

text \<open>
  Modelled from the spec: \<^verbatim>\<open>clamp\<close> and \<^verbatim>\<open>maxInt\<close> are helpers of the package
  that are defined outside the two source files; the specification has the cursor clamped
  to \<open>[0, max(0, count-1)]\<close>, so \<open>clamp v lo hi\<close> brings \<open>v\<close> into \<open>[lo, hi]\<close> and
  \<open>maxInt\<close> is the larger of two integers.
\<close>

definition clamp :: "int \<Rightarrow> int \<Rightarrow> int \<Rightarrow> int" where
  "clamp v lo hi = (if v < lo then lo else if v > hi then hi else v)"

definition maxInt :: "int \<Rightarrow> int \<Rightarrow> int" where
  "maxInt a b = (if a > b then a else b)"

text \<open>
  Modelled from the spec: \<^verbatim>\<open>matchesAllWords\<close> is defined outside the two source files;
  by the specification a candidate is shown only if it contains all required substrings.
\<close>

definition matchesAllWords :: "string \<Rightarrow> string list \<Rightarrow> bool" where
  "matchesAllWords text words = list_all (\<lambda>w. sublist w text) words"

text \<open>
  \<^verbatim>\<open>varSelectModel\<close>, without the fields that only \<^verbatim>\<open>View\<close> reads (variable name,
  headers, width and height). The cursor is a Go \<open>int\<close>; it stays within the list, far
  from the 64-bit bounds, and is an \<^typ>\<open>int\<close> here.
\<close>

record 'ti varSelectModel =
  options :: "string list"
  filtered :: "string list"
  cursor :: int
  textInput :: 'ti
  selected :: string
  cancelled :: bool

definition newVarSelectModel :: "'ti textinputOps \<Rightarrow> string list \<Rightarrow> string \<Rightarrow> 'ti varSelectModel" where
  "newVarSelectModel ops opts pre =
     \<lparr>options = opts, filtered = opts, cursor = 0,
      textInput = (if pre \<noteq> [] then tiSetValue ops pre (tiNew ops) else tiNew ops),
      selected = [], cancelled = False\<rparr>"

definition moveCursor :: "'ti varSelectModel \<Rightarrow> int \<Rightarrow> 'ti varSelectModel" where
  "moveCursor m delta =
     m\<lparr>cursor := clamp (cursor m + delta) 0 (maxInt 0 (int (length (filtered m)) - 1))\<rparr>"

definition filterOptions :: "'ti textinputOps \<Rightarrow> 'ti varSelectModel \<Rightarrow> 'ti varSelectModel" where
  "filterOptions ops m =
     (let query = TrimSpace (ToLower (tiValue ops (textInput m)));
          m1 = (if query = [] then m\<lparr>filtered := options m\<rparr>
                else let words = Fields query in
                  m\<lparr>filtered := foldl (\<lambda>acc opt. if matchesAllWords (ToLower opt) words
                                                 then acc @ [opt] else acc) [] (options m)\<rparr>)
      in m1\<lparr>cursor := clamp (cursor m1) 0 (maxInt 0 (int (length (filtered m1)) - 1))\<rparr>)"

text \<open>The sentinel value by which the screens tell the session to exit the process.\<close>

definition EXIT :: string where
  "EXIT = ''__EXIT__''"

text \<open>
  \<^verbatim>\<open>handleKeyPress\<close> of the selection screen; the boolean says whether the command
  returned is \<^verbatim>\<open>tea.Quit\<close>. Indexing \<^verbatim>\<open>m.filtered[m.cursor]\<close> with a negative
  cursor would panic: \<^term>\<open>None\<close>.
\<close>

definition selectHandleKeyPress ::
  "'ti textinputOps \<Rightarrow> 'ti varSelectModel \<Rightarrow> string \<Rightarrow> ('ti varSelectModel \<times> bool) option" where
  "selectHandleKeyPress ops m k =
     (if k = ''ctrl+c'' then Some (m\<lparr>cancelled := True, selected := EXIT\<rparr>, True)
      else if k = ''esc'' then Some (m\<lparr>cancelled := True\<rparr>, True)
      else if k = ''enter'' then
        (if cursor m < int (length (filtered m)) then
           (if cursor m < 0 then None
            else Some (m\<lparr>selected := filtered m ! nat (cursor m)\<rparr>, True))
         else Some (m\<lparr>selected := tiValue ops (textInput m)\<rparr>, True))
      else if k = ''up'' \<or> k = ''ctrl+p'' then Some (moveCursor m (- 1), False)
      else if k = ''down'' \<or> k = ''ctrl+n'' then Some (moveCursor m 1, False)
      else if k = ''tab'' then
        (if cursor m < int (length (filtered m)) then
           (if cursor m < 0 then None
            else Some (m\<lparr>textInput := tiSetValue ops (filtered m ! nat (cursor m)) (textInput m)\<rparr>, False))
         else Some (m, False))
      else Some (m, False))"

text \<open>
  \<^verbatim>\<open>Update\<close>: a quitting key returns at once; otherwise the message goes to the text
  field and the options are filtered again. The text field's own command is taken never
  to be \<^verbatim>\<open>tea.Quit\<close>.
\<close>

definition selectUpdate ::
  "'ti textinputOps \<Rightarrow> 'ti varSelectModel \<Rightarrow> msg \<Rightarrow> ('ti varSelectModel \<times> bool) option" where
  "selectUpdate ops m message =
     (case (case message of KeyMsg k \<Rightarrow> selectHandleKeyPress ops m k | _ \<Rightarrow> Some (m, False)) of
        None \<Rightarrow> None
      | Some (m1, quit) \<Rightarrow>
          if quit then Some (m1, True)
          else Some (filterOptions ops (m1\<lparr>textInput := tiUpdate ops message (textInput m1)\<rparr>), False))"

text \<open>\<^verbatim>\<open>varInputModel\<close>, the text entry screen; its fields carry the suffix \<open>I\<close>.\<close>

record 'ti varInputModel =
  textInputI :: 'ti
  valueI :: string
  cancelledI :: bool

definition newVarInputModel :: "'ti textinputOps \<Rightarrow> string \<Rightarrow> 'ti varInputModel" where
  "newVarInputModel ops pre =
     \<lparr>textInputI = (if pre \<noteq> [] then tiSetValue ops pre (tiNew ops) else tiNew ops),
      valueI = [], cancelledI = False\<rparr>"

definition inputHandleKeyPress ::
  "'ti textinputOps \<Rightarrow> 'ti varInputModel \<Rightarrow> string \<Rightarrow> 'ti varInputModel \<times> bool" where
  "inputHandleKeyPress ops m k =
     (if k = ''ctrl+c'' then (m\<lparr>cancelledI := True, valueI := EXIT\<rparr>, True)
      else if k = ''esc'' then (m\<lparr>cancelledI := True\<rparr>, True)
      else if k = ''enter'' then (m\<lparr>valueI := tiValue ops (textInputI m)\<rparr>, True)
      else (m, False))"

definition inputUpdate ::
  "'ti textinputOps \<Rightarrow> 'ti varInputModel \<Rightarrow> msg \<Rightarrow> ('ti varInputModel \<times> bool) option" where
  "inputUpdate ops m message =
     (case (case message of KeyMsg k \<Rightarrow> inputHandleKeyPress ops m k | _ \<Rightarrow> (m, False)) of
        (m1, quit) \<Rightarrow>
          if quit then Some (m1, True)
          else Some (m1\<lparr>textInputI := tiUpdate ops message (textInputI m1)\<rparr>, False))"

text \<open>
  \<^verbatim>\<open>tea.Program.Run\<close>: messages are handled in order until an update returns
  \<^verbatim>\<open>tea.Quit\<close>; the final model is returned. With no message left the program keeps
  waiting for input (\<open>Waiting\<close>).
\<close>

datatype 'm run_result = Finished 'm | Waiting | Panicked

fun runProgram :: "('m \<Rightarrow> msg \<Rightarrow> ('m \<times> bool) option) \<Rightarrow> 'm \<Rightarrow> msg list \<Rightarrow> 'm run_result" where
  "runProgram update m [] = Waiting"
| "runProgram update m (x # xs) =
     (case update m x of
        None \<Rightarrow> Panicked
      | Some (m1, quit) \<Rightarrow> if quit then Finished m1 else runProgram update m1 xs)"

text \<open>
  Go errors: of the shell runner and of the terminal program. What a terminal session
  supplies: either \<^verbatim>\<open>p.Run()\<close> fails, or it delivers messages. The result of
  \<^verbatim>\<open>SelectWithTUI\<close>, \<^verbatim>\<open>PromptWithTUI\<close> and \<^verbatim>\<open>resolveVar\<close> is the triple
  \<open>(value, goBack, nil)\<close>, an error, no return (blocked on input) or a panic.
\<close>

datatype go_error = ExecError | TuiError

datatype tui_input = RunFails | Messages "msg list"

datatype resolve_result = Result string bool | Failed go_error | Blocked | Panic

definition SelectWithTUI ::
  "'ti textinputOps \<Rightarrow> string list \<Rightarrow> string \<Rightarrow> tui_input \<Rightarrow> resolve_result" where
  "SelectWithTUI ops opts pre inp =
     (case inp of
        RunFails \<Rightarrow> Failed TuiError
      | Messages ms \<Rightarrow>
          (case runProgram (selectUpdate ops) (newVarSelectModel ops opts pre) ms of
             Waiting \<Rightarrow> Blocked
           | Panicked \<Rightarrow> Panic
           | Finished result \<Rightarrow>
               if selected result = EXIT then Result EXIT False
               else if cancelled result then Result [] True
               else Result (selected result) False))"

definition PromptWithTUI :: "'ti textinputOps \<Rightarrow> string \<Rightarrow> tui_input \<Rightarrow> resolve_result" where
  "PromptWithTUI ops pre inp =
     (case inp of
        RunFails \<Rightarrow> Failed TuiError
      | Messages ms \<Rightarrow>
          (case runProgram (inputUpdate ops) (newVarInputModel ops pre) ms of
             Waiting \<Rightarrow> Blocked
           | Panicked \<Rightarrow> Panic
           | Finished result \<Rightarrow>
               if valueI result = EXIT then Result EXIT False
               else if cancelledI result then Result [] True
               else Result (valueI result) False))"

subsection \<open>Value source resolver\<close>

text \<open>
  What the environment contributes to one call of \<^verbatim>\<open>resolveVar\<close>: the order in
  which \<^verbatim>\<open>range scope\<close> visits the keys of the scope map (Go leaves it unspecified),
  the shell runner (\<^verbatim>\<open>exec.RunShell\<close>) and the terminal session.
\<close>

record interaction =
  scopeOrder :: "string list"
  RunShell :: "string \<Rightarrow> go_error + string"
  tui :: tui_input

text \<open>
  The substitution loop of \<^verbatim>\<open>resolveVar\<close>: one \<^verbatim>\<open>strings.ReplaceAll\<close> of
  \<open>$name\<close> per key of the scope, in the order of the iteration. A legitimate order
  lists every key of the scope once.
\<close>

definition substScope :: "string \<Rightarrow> (string \<rightharpoonup> string) \<Rightarrow> string list \<Rightarrow> string" where
  "substScope shell scope order =
     foldl (\<lambda>shellCmd name. case scope name of
                               None \<Rightarrow> shellCmd
                             | Some v \<Rightarrow> ReplaceAll shellCmd (CHR ''$'' # name) v)
           shell order"

text \<open>
  \<^verbatim>\<open>resolveVar\<close>. The progress header and the custom header taken from the selector
  arguments are only drawn by the screens and are left out.
\<close>

definition resolveVar ::
  "'ti textinputOps \<Rightarrow> VarDef \<Rightarrow> (string \<rightharpoonup> string) \<Rightarrow> interaction \<Rightarrow> string \<Rightarrow> resolve_result" where
  "resolveVar ops v scope ia pre =
     (if TrimSpace (Shell v) = [] then PromptWithTUI ops pre (tui ia)
      else
        let shellCmd = substScope (Shell v) scope (scopeOrder ia) in
        case RunShell ia shellCmd of
          Inl err \<Rightarrow> PromptWithTUI ops pre (tui ia)
        | Inr output \<Rightarrow>
            let lines = splitLines output in
            if length lines = 0 \<or> length lines = 1 then PromptWithTUI ops pre (tui ia)
            else SelectWithTUI ops lines pre (tui ia))"

subsection \<open>Resolution session\<close>

text \<open>\<^verbatim>\<open>buildScope\<close>: the scope map of the resolved variables, written in list order.\<close>

definition buildScope :: "varState list \<Rightarrow> (string \<rightharpoonup> string)" where
  "buildScope vars =
     fold (\<lambda>vs scope. if resolved vs then scope(Name (def vs) \<mapsto> val vs) else scope) vars Map.empty"

text \<open>
  The loop of \<^verbatim>\<open>resolveAllVariables\<close>. \<open>loopBody\<close> is one iteration, after the loop
  condition: it stops with a result or continues with the updated states, cursor and the
  remaining interactions. \<^verbatim>\<open>os.Exit(0)\<close> is the result \<open>Exit\<close>.
\<close>

datatype loop_result = Done "varState list" | BackToMain | Err go_error | Exit | LBlocked | LPanic

datatype step_result = Stop loop_result | Continue "varState list" int "interaction list"

definition loopBody ::
  "'ti textinputOps \<Rightarrow> varState list \<Rightarrow> int \<Rightarrow> interaction list \<Rightarrow> step_result" where
  "loopBody ops vars currentIdx inters =
     (if currentIdx < 0 then Stop BackToMain
      else
        let vs = vars ! nat currentIdx in
        if resolved vs then Continue vars (currentIdx + 1) inters
        else
          (case inters of
             [] \<Rightarrow> Stop LBlocked
           | ia # rest \<Rightarrow>
               (case resolveVar ops (def vs) (buildScope vars) ia (prefill vs) of
                  Failed err \<Rightarrow> Stop (Err err)
                | Blocked \<Rightarrow> Stop LBlocked
                | Panic \<Rightarrow> Stop LPanic
                | Result v goBack \<Rightarrow>
                    if v = EXIT then Stop Exit
                    else if goBack then
                      (let idx = currentIdx - 1 in
                       if idx \<ge> 0
                       then Continue (vars[nat idx := (vars ! nat idx)\<lparr>resolved := False, val := []\<rparr>]) idx rest
                       else Continue vars idx rest)
                    else Continue (vars[nat currentIdx := vs\<lparr>val := v, resolved := True\<rparr>])
                           (currentIdx + 1) rest)))"

function resolveLoop ::
  "'ti textinputOps \<Rightarrow> varState list \<Rightarrow> int \<Rightarrow> interaction list \<Rightarrow> loop_result" where
  "resolveLoop ops vars currentIdx inters =
     (if \<not> currentIdx < int (length vars) then Done vars
      else case loopBody ops vars currentIdx inters of
             Stop r \<Rightarrow> r
           | Continue vars1 idx1 inters1 \<Rightarrow> resolveLoop ops vars1 idx1 inters1)"
  by pat_completeness auto
termination
proof (relation "measures [\<lambda>(ops, vars, idx, inters). length inters,
                           \<lambda>(ops, vars, idx, inters). nat (int (length vars) - idx)]", goal_cases)
  case 1
  show ?case by simp
next
  case 2
  then show ?case
    by (auto simp: loopBody_def Let_def split: if_splits list.splits resolve_result.splits)
qed

declare resolveLoop.simps [simp del]

text \<open>The rest of \<^verbatim>\<open>resolveAllVariables\<close>: prefill from the environment before the loop, copy into the cheat's scope after it.\<close>

definition prefillFromEnv :: "(string \<Rightarrow> string) \<Rightarrow> varState list \<Rightarrow> varState list" where
  "prefillFromEnv getenv vars =
     map (\<lambda>vs. let envVal = getenv (Name (def vs)) in
                if envVal \<noteq> [] then vs\<lparr>prefill := envVal\<rparr> else vs) vars"

definition copyToScope :: "varState list \<Rightarrow> (string \<rightharpoonup> string) \<Rightarrow> (string \<rightharpoonup> string)" where
  "copyToScope vars scope =
     fold (\<lambda>vs sc. if resolved vs then sc(Name (def vs) \<mapsto> val vs) else sc) vars scope"

datatype session_result = Return bool Cheat | ReturnErr go_error | ProcessExit | Hang | Crash

definition finish :: "Cheat \<Rightarrow> loop_result \<Rightarrow> session_result" where
  "finish cheat r =
     (case r of
        Done vars \<Rightarrow> Return False (cheat\<lparr>Scope := copyToScope vars (Scope cheat)\<rparr>)
      | BackToMain \<Rightarrow> Return True cheat
      | Err e \<Rightarrow> ReturnErr e
      | Exit \<Rightarrow> ProcessExit
      | LBlocked \<Rightarrow> Hang
      | LPanic \<Rightarrow> Crash)"

definition resolveAllVariables ::
  "'ti textinputOps \<Rightarrow> (string \<Rightarrow> string) \<Rightarrow> Cheat \<Rightarrow> CheatIndex \<Rightarrow> interaction list \<Rightarrow> session_result" where
  "resolveAllVariables ops getenv cheat index inters =
     (case collectVariables cheat index of
        None \<Rightarrow> Hang
      | Some vars0 \<Rightarrow>
          if length vars0 = 0 then Return False cheat
          else finish cheat (resolveLoop ops (prefillFromEnv getenv vars0) 0 inters))"

text \<open>
  A minimal text field for concrete evaluation: a one-character key is appended,
  backspace removes the last character, every other message is ignored.
\<close>

definition basicField :: "string textinputOps" where
  "basicField =
     \<lparr>tiNew = [], tiSetValue = (\<lambda>s t. s), tiValue = (\<lambda>t. t),
      tiUpdate = (\<lambda>message t. case message of
                    KeyMsg k \<Rightarrow> if length k = 1 then t @ k
                                else if k = ''backspace'' then butlast t else t
                  | _ \<Rightarrow> t)\<rparr>"

definition typed :: "string \<Rightarrow> msg list" where
  "typed s = map (\<lambda>c. KeyMsg [c]) s"

definition noShell :: "string \<Rightarrow> go_error + string" where
  "noShell c = Inl ExecError"

definition isExit :: "session_result \<Rightarrow> bool" where
  "isExit r = (case r of ProcessExit \<Rightarrow> True | _ \<Rightarrow> False)"

lemma foldl_append_filter:
  "foldl (\<lambda>acc x. if P x then acc @ [x] else acc) a xs = a @ filter P xs"
  by (induction xs arbitrary: a) auto


lemma clamp_range: "lo \<le> hi \<Longrightarrow> lo \<le> clamp v lo hi \<and> clamp v lo hi \<le> hi"
  by (simp add: clamp_def)

lemma maxInt_max: "maxInt a b = max a b"
  by (simp add: maxInt_def max_def)

lemma filterOptions_filtered:
  "filtered (filterOptions ops m) =
     filter (\<lambda>opt. \<forall>w \<in> set (Fields (TrimSpace (ToLower (tiValue ops (textInput m))))).
                     sublist w (ToLower opt)) (options m)"
  by (simp add: filterOptions_def Let_def foldl_append_filter matchesAllWords_def list_all_iff
                Fields_def)

lemma filterOptions_cursor:
  "0 \<le> cursor (filterOptions ops m)
   \<and> cursor (filterOptions ops m) \<le> max 0 (int (length (filtered (filterOptions ops m))) - 1)"
  by (simp add: filterOptions_def Let_def clamp_def maxInt_def)

lemma moveCursor_cursor:
  "0 \<le> cursor (moveCursor m delta)
   \<and> cursor (moveCursor m delta) \<le> max 0 (int (length (filtered (moveCursor m delta))) - 1)"
  by (simp add: moveCursor_def clamp_def maxInt_def)

lemma selectUpdate_cursor:
  assumes "selectUpdate ops m message = Some (m1, False)"
  shows "0 \<le> cursor m1 \<and> cursor m1 \<le> max 0 (int (length (filtered m1)) - 1)"
proof -
  from assms obtain m0 where "m1 = filterOptions ops m0"
    by (auto simp: selectUpdate_def split: option.splits prod.splits if_splits)
  then show ?thesis by (simp only: filterOptions_cursor)
qed

text \<open>
  Claim C8. After \<open>filterOptions\<close> the shown candidates are exactly the options whose
  lower-cased text contains, as a substring, every token of the trimmed, lower-cased field
  text split on white space, in the original order; an empty filter shows all options.
  After \<open>filterOptions\<close>, after \<open>moveCursor\<close> and after every update that does not quit,
  the cursor lies in \<open>[0, max(0, count - 1)]\<close>.
\<close>

theorem filterOptions_contract:
  "filtered (filterOptions ops m) =
     filter (\<lambda>opt. \<forall>w \<in> set (Fields (TrimSpace (ToLower (tiValue ops (textInput m))))).
                     sublist w (ToLower opt)) (options m)
   \<and> (TrimSpace (ToLower (tiValue ops (textInput m))) = [] \<longrightarrow>
        filtered (filterOptions ops m) = options m)
   \<and> 0 \<le> cursor (filterOptions ops m)
   \<and> cursor (filterOptions ops m) \<le> max 0 (int (length (filtered (filterOptions ops m))) - 1)
   \<and> 0 \<le> cursor (moveCursor m delta)
   \<and> cursor (moveCursor m delta) \<le> max 0 (int (length (filtered (moveCursor m delta))) - 1)
   \<and> (selectUpdate ops m message = Some (m1, False) \<longrightarrow>
        0 \<le> cursor m1 \<and> cursor m1 \<le> max 0 (int (length (filtered m1)) - 1))"
proof (intro conjI impI)
  show "filtered (filterOptions ops m) =
     filter (\<lambda>opt. \<forall>w \<in> set (Fields (TrimSpace (ToLower (tiValue ops (textInput m))))).
                     sublist w (ToLower opt)) (options m)"
    by (rule filterOptions_filtered)
next
  assume "TrimSpace (ToLower (tiValue ops (textInput m))) = []"
  then show "filtered (filterOptions ops m) = options m"
    by (simp add: filterOptions_def Let_def)
next
  show "0 \<le> cursor (filterOptions ops m)" by (simp add: filterOptions_cursor)
next
  show "cursor (filterOptions ops m) \<le> max 0 (int (length (filtered (filterOptions ops m))) - 1)"
    by (simp only: filterOptions_cursor)
next
  show "0 \<le> cursor (moveCursor m delta)" by (simp add: moveCursor_cursor)
next
  show "cursor (moveCursor m delta) \<le> max 0 (int (length (filtered (moveCursor m delta))) - 1)"
    by (simp only: moveCursor_cursor)
next
  assume "selectUpdate ops m message = Some (m1, False)"
  then show "0 \<le> cursor m1" by (simp add: selectUpdate_cursor)
next
  assume "selectUpdate ops m message = Some (m1, False)"
  then show "cursor m1 \<le> max 0 (int (length (filtered m1)) - 1)" by (simp only: selectUpdate_cursor)
qed

definition ex_select :: "string varSelectModel" where
  "ex_select = (newVarSelectModel basicField [''production'', ''dev-east'', ''prod-db''] [])
                 \<lparr>cursor := 2, textInput := '' Pro  D ''\<rparr>"

theorem filterOptions_contract_witness:
  "filtered (filterOptions basicField ex_select) = [''production'', ''prod-db'']
   \<and> cursor (filterOptions basicField ex_select) = 1
   \<and> filtered (filterOptions basicField (ex_select\<lparr>textInput := ''   ''\<rparr>))
       = [''production'', ''dev-east'', ''prod-db'']
   \<and> (\<exists>m1. selectUpdate basicField ex_select (KeyMsg ''down'') = Some (m1, False) \<and> cursor m1 = 1)"
proof -
  have rhs: "filter (\<lambda>opt. \<forall>w \<in> set (Fields (TrimSpace (ToLower (tiValue basicField (textInput ex_select))))).
                     sublist w (ToLower opt)) (options ex_select) = [''production'', ''prod-db'']"
    by code_simp
  have c: "cursor (filterOptions basicField ex_select) = 1" by code_simp
  have e: "TrimSpace (ToLower (tiValue basicField (textInput (ex_select\<lparr>textInput := ''   ''\<rparr>)))) = []"
    by code_simp
  have o: "options (ex_select\<lparr>textInput := ''   ''\<rparr>) = [''production'', ''dev-east'', ''prod-db'']"
    by code_simp
  have u: "selectUpdate basicField ex_select (KeyMsg ''down'')
           = Some (filterOptions basicField ((moveCursor ex_select 1)\<lparr>textInput := '' Pro  D ''\<rparr>), False)"
    by (simp add: selectUpdate_def selectHandleKeyPress_def basicField_def ex_select_def
                  newVarSelectModel_def moveCursor_def)
  have c2: "cursor (filterOptions basicField ((moveCursor ex_select 1)\<lparr>textInput := '' Pro  D ''\<rparr>)) = 1"
    by code_simp
  note T1 = filterOptions_contract[of basicField ex_select 1 "KeyMsg ''down''" ex_select]
  note T2 = filterOptions_contract[of basicField "ex_select\<lparr>textInput := ''   ''\<rparr>" 1 "KeyMsg ''down''" ex_select]
  have a: "filtered (filterOptions basicField ex_select) = [''production'', ''prod-db'']"
    using conjunct1[OF T1] rhs by (rule trans)
  have b: "filtered (filterOptions basicField (ex_select\<lparr>textInput := ''   ''\<rparr>))
       = [''production'', ''dev-east'', ''prod-db'']"
    using conjunct1[OF conjunct2[OF T2], THEN mp, OF e] o by (rule trans)
  have d: "\<exists>m1. selectUpdate basicField ex_select (KeyMsg ''down'') = Some (m1, False) \<and> cursor m1 = 1"
    using u c2 by blast
  from a b c d show ?thesis by blast
qed

text \<open>
  Claim C10. Substituting the scope into a value command depends on the order in which
  the scope map is iterated when one name is a prefix of another: with \<open>env = dev\<close> and
  \<open>environment = prod\<close>, the command \<open>echo $environment\<close> becomes
  \<open>echo devironment\<close> when \<open>env\<close> is visited first and \<open>echo prod\<close> otherwise;
  both orders list the keys of the scope.
\<close>

theorem substScope_depends_on_order:
  "substScope ''echo $environment'' [''env'' \<mapsto> ''dev'', ''environment'' \<mapsto> ''prod'']
        [''env'', ''environment''] = ''echo devironment''
   \<and> substScope ''echo $environment'' [''env'' \<mapsto> ''dev'', ''environment'' \<mapsto> ''prod'']
        [''environment'', ''env''] = ''echo prod''
   \<and> dom [''env'' \<mapsto> ''dev'', ''environment'' \<mapsto> ''prod''] = set [''env'', ''environment'']
   \<and> dom [''env'' \<mapsto> ''dev'', ''environment'' \<mapsto> ''prod''] = set [''environment'', ''env'']"
proof (intro conjI)
  show "substScope ''echo $environment'' [''env'' \<mapsto> ''dev'', ''environment'' \<mapsto> ''prod'']
        [''env'', ''environment''] = ''echo devironment''"
    by code_simp
  show "substScope ''echo $environment'' [''env'' \<mapsto> ''dev'', ''environment'' \<mapsto> ''prod'']
        [''environment'', ''env''] = ''echo prod''"
    by code_simp
  show "dom [''env'' \<mapsto> ''dev'', ''environment'' \<mapsto> ''prod''] = set [''env'', ''environment'']"
    by auto
  show "dom [''env'' \<mapsto> ''dev'', ''environment'' \<mapsto> ''prod''] = set [''environment'', ''env'']"
    by auto
qed

lemma EXIT_nonempty: "EXIT \<noteq> []"
  by (simp add: EXIT_def)

lemma SelectWithTUI_cases:
  "SelectWithTUI ops opts pre inp = Result v True \<Longrightarrow> v = []"
  "SelectWithTUI ops opts pre inp \<noteq> Failed ExecError"
  by (auto simp: SelectWithTUI_def split: tui_input.splits run_result.splits if_splits)

lemma PromptWithTUI_cases:
  "PromptWithTUI ops pre inp = Result v True \<Longrightarrow> v = []"
  "PromptWithTUI ops pre inp \<noteq> Failed ExecError"
  by (auto simp: PromptWithTUI_def split: tui_input.splits run_result.splits if_splits)

lemma resolveVar_cases:
  "resolveVar ops d scope ia pre = Result v True \<Longrightarrow> v = []"
  "resolveVar ops d scope ia pre \<noteq> Failed ExecError"
  by (auto simp: resolveVar_def Let_def SelectWithTUI_cases PromptWithTUI_cases
           split: if_splits sum.splits)






subsection \<open>Properties of the session\<close>

lemma loopBody_goBack:
  assumes "0 \<le> i" "i < int (length vars)" "\<not> resolved (vars ! nat i)"
    "resolveVar ops (def (vars ! nat i)) (buildScope vars) ia (prefill (vars ! nat i)) = Result v True"
  shows "loopBody ops vars i (ia # rest) =
           Continue (if 0 \<le> i - 1
                     then vars[nat (i - 1) := (vars ! nat (i - 1))\<lparr>resolved := False, val := []\<rparr>]
                     else vars) (i - 1) rest"
proof -
  from assms(4) have "v = []" by (rule resolveVar_cases)
  then have "v \<noteq> EXIT" using EXIT_nonempty by simp
  with assms show ?thesis by (simp add: loopBody_def Let_def)
qed

lemma resolveLoop_negative: "i < 0 \<Longrightarrow> resolveLoop ops vars i inters = BackToMain"
  by (subst resolveLoop.simps) (simp add: loopBody_def)

lemma resolveLoop_continue:
  "i < int (length vars) \<Longrightarrow> loopBody ops vars i inters = Continue vars1 i1 inters1 \<Longrightarrow>
   resolveLoop ops vars i inters = resolveLoop ops vars1 i1 inters1"
  by (subst resolveLoop.simps) simp

lemma resolveLoop_stop:
  "i < int (length vars) \<Longrightarrow> loopBody ops vars i inters = Stop r \<Longrightarrow>
   resolveLoop ops vars i inters = r"
  by (subst resolveLoop.simps) simp


text \<open>
  Claim C2. When the screen of step \<open>i\<close> returns go-back, the loop continues with the
  cursor at \<open>i - 1\<close>; if \<open>i - 1 \<ge> 0\<close>, step \<open>i - 1\<close> is pending with an empty value
  and every other step is unchanged; if the cursor is \<open>-1\<close>, the loop returns the
  back-to-main signal and the session returns \<open>(true, nil)\<close> with the cheat unchanged.
\<close>

theorem session_goBack:
  assumes "0 \<le> i" "i < int (length vars)" "\<not> resolved (vars ! nat i)"
    "resolveVar ops (def (vars ! nat i)) (buildScope vars) ia (prefill (vars ! nat i)) = Result v True"
  shows "\<exists>vars1. loopBody ops vars i (ia # rest) = Continue vars1 (i - 1) rest
           \<and> length vars1 = length vars
           \<and> (\<forall>j < length vars. int j \<noteq> i - 1 \<longrightarrow> vars1 ! j = vars ! j)
           \<and> (0 \<le> i - 1 \<longrightarrow> vars1 ! nat (i - 1) = (vars ! nat (i - 1))\<lparr>resolved := False, val := []\<rparr>)
           \<and> (i - 1 = - 1 \<longrightarrow> resolveLoop ops vars i (ia # rest) = BackToMain
                                \<and> finish cheat (resolveLoop ops vars i (ia # rest)) = Return True cheat)"
proof -
  let ?vars1 = "if 0 \<le> i - 1
                then vars[nat (i - 1) := (vars ! nat (i - 1))\<lparr>resolved := False, val := []\<rparr>]
                else vars"
  have body: "loopBody ops vars i (ia # rest) = Continue ?vars1 (i - 1) rest"
    using assms by (rule loopBody_goBack)
  have len: "length ?vars1 = length vars" by simp
  have others: "\<forall>j < length vars. int j \<noteq> i - 1 \<longrightarrow> ?vars1 ! j = vars ! j"
    by (auto simp: nth_list_update)
  have prev: "0 \<le> i - 1 \<longrightarrow> ?vars1 ! nat (i - 1) = (vars ! nat (i - 1))\<lparr>resolved := False, val := []\<rparr>"
    using assms(2) by auto
  have toMain: "i - 1 = - 1 \<longrightarrow> resolveLoop ops vars i (ia # rest) = BackToMain
                \<and> finish cheat (resolveLoop ops vars i (ia # rest)) = Return True cheat"
  proof
    assume "i - 1 = - 1"
    have "resolveLoop ops vars i (ia # rest) = resolveLoop ops ?vars1 (i - 1) rest"
      using assms(2) body by (rule resolveLoop_continue)
    also have "\<dots> = BackToMain" using \<open>i - 1 = - 1\<close> by (simp add: resolveLoop_negative)
    finally show "resolveLoop ops vars i (ia # rest) = BackToMain
                \<and> finish cheat (resolveLoop ops vars i (ia # rest)) = Return True cheat"
      by (simp add: finish_def)
  qed
  from body len others prev toMain show ?thesis by blast
qed

text \<open>Two variables, the first resolved, and an interaction in which the user presses escape.\<close>

definition two_vars :: "varState list" where
  "two_vars = [\<lparr>def = synthetic ''a'', val = ''1'', resolved = True, prefill = []\<rparr>,
               newVarState (synthetic ''b'')]"

definition esc_ia :: interaction where
  "esc_ia = \<lparr>scopeOrder = [''a''], RunShell = noShell, tui = Messages [KeyMsg ''esc'']\<rparr>"

theorem session_goBack_witness:
  "(\<exists>vars1. loopBody basicField two_vars 1 [esc_ia] = Continue vars1 0 []
       \<and> vars1 ! 0 = (two_vars ! 0)\<lparr>resolved := False, val := []\<rparr> \<and> vars1 ! 1 = two_vars ! 1)
   \<and> resolveLoop basicField [newVarState (synthetic ''a'')] 0 [esc_ia] = BackToMain"
proof
  have h: "(0::int) \<le> 1" "1 < int (length two_vars)" "\<not> resolved (two_vars ! nat 1)"
    "resolveVar basicField (def (two_vars ! nat 1)) (buildScope two_vars) esc_ia (prefill (two_vars ! nat 1))
       = Result [] True"
    by code_simp+
  from session_goBack[OF h, of "[]"]
  show "\<exists>vars1. loopBody basicField two_vars 1 [esc_ia] = Continue vars1 0 []
       \<and> vars1 ! 0 = (two_vars ! 0)\<lparr>resolved := False, val := []\<rparr> \<and> vars1 ! 1 = two_vars ! 1"
    by (auto simp: two_vars_def)
next
  let ?vars = "[newVarState (synthetic ''a'')]"
  have h: "(0::int) \<le> 0" "0 < int (length ?vars)" "\<not> resolved (?vars ! nat 0)"
    "resolveVar basicField (def (?vars ! nat 0)) (buildScope ?vars) esc_ia (prefill (?vars ! nat 0))
       = Result [] True"
    by code_simp+
  from session_goBack[OF h, of "[]"]
  show "resolveLoop basicField ?vars 0 [esc_ia] = BackToMain" by auto
qed

definition first_ia :: interaction where
  "first_ia = \<lparr>scopeOrder = [], RunShell = noShell, tui = Messages (typed ''1'' @ [KeyMsg ''enter''])\<rparr>"

text \<open>
  Claim C3 as stated fails. Starting from two pending variables, the user enters \<open>1\<close>
  for variable 0 and is prompted for variable 1 with variable 0 resolved; pressing escape
  there moves the cursor to 0 and makes variable 0 pending again, its value cleared.
\<close>

theorem goBack_reopens_predecessor:
  "loopBody basicField [newVarState (synthetic ''a''), newVarState (synthetic ''b'')] 0 [first_ia, esc_ia]
     = Continue two_vars 1 [esc_ia]
   \<and> resolved (two_vars ! 0)
   \<and> loopBody basicField two_vars 1 [esc_ia]
     = Continue [newVarState (synthetic ''a''), newVarState (synthetic ''b'')] 0 []
   \<and> \<not> resolved ([newVarState (synthetic ''a''), newVarState (synthetic ''b'')] ! 0)"
proof (intro conjI)
  have r: "resolveVar basicField (synthetic ''a'')
             (buildScope [newVarState (synthetic ''a''), newVarState (synthetic ''b'')]) first_ia []
           = Result ''1'' False"
    by code_simp
  have ne: "''1'' \<noteq> EXIT" by code_simp
  show "loopBody basicField [newVarState (synthetic ''a''), newVarState (synthetic ''b'')] 0 [first_ia, esc_ia]
     = Continue two_vars 1 [esc_ia]"
    using r ne by (simp add: loopBody_def Let_def newVarState_def two_vars_def)
next
  show "resolved (two_vars ! 0)" by (simp add: two_vars_def)
next
  have h: "(0::int) \<le> 1" "1 < int (length two_vars)" "\<not> resolved (two_vars ! nat 1)"
    "resolveVar basicField (def (two_vars ! nat 1)) (buildScope two_vars) esc_ia (prefill (two_vars ! nat 1))
       = Result [] True"
    by code_simp+
  from loopBody_goBack[OF h, of "[]"]
  show "loopBody basicField two_vars 1 [esc_ia]
     = Continue [newVarState (synthetic ''a''), newVarState (synthetic ''b'')] 0 []"
    by (simp add: two_vars_def newVarState_def)
next
  show "\<not> resolved ([newVarState (synthetic ''a''), newVarState (synthetic ''b'')] ! 0)"
    by (simp add: newVarState_def)
qed

text \<open>
  Claim C3, amended. With variable 0 resolved and the user prompted for variable 1, a
  go-back from variable 1 moves the cursor to variable 0, marks variable 0 pending with
  its value cleared, so that it is prompted again, and leaves variable 1 pending;
  every variable other than variable 0 keeps its state.
\<close>

theorem goBack_from_second:
  assumes "2 \<le> length vars" "resolved (vars ! 0)" "\<not> resolved (vars ! 1)"
    "resolveVar ops (def (vars ! 1)) (buildScope vars) ia (prefill (vars ! 1)) = Result v True"
  shows "loopBody ops vars 1 (ia # rest)
           = Continue (vars[0 := (vars ! 0)\<lparr>resolved := False, val := []\<rparr>]) 0 rest
         \<and> \<not> resolved ((vars[0 := (vars ! 0)\<lparr>resolved := False, val := []\<rparr>]) ! 0)
         \<and> val ((vars[0 := (vars ! 0)\<lparr>resolved := False, val := []\<rparr>]) ! 0) = []
         \<and> \<not> resolved ((vars[0 := (vars ! 0)\<lparr>resolved := False, val := []\<rparr>]) ! 1)
         \<and> (\<forall>j < length vars. j \<noteq> 0 \<longrightarrow>
               (vars[0 := (vars ! 0)\<lparr>resolved := False, val := []\<rparr>]) ! j = vars ! j)"
proof -
  have h: "(0::int) \<le> 1" "1 < int (length vars)" "\<not> resolved (vars ! nat 1)"
    "resolveVar ops (def (vars ! nat 1)) (buildScope vars) ia (prefill (vars ! nat 1)) = Result v True"
    using assms by simp_all
  from loopBody_goBack[OF h, of rest]
  have "loopBody ops vars 1 (ia # rest)
           = Continue (vars[0 := (vars ! 0)\<lparr>resolved := False, val := []\<rparr>]) 0 rest"
    by simp
  moreover from assms(1) have "0 < length vars" by (cases vars) simp_all
  ultimately show ?thesis using assms(3) by simp
qed

theorem goBack_from_second_witness:
  "2 \<le> length two_vars \<and> resolved (two_vars ! 0) \<and> \<not> resolved (two_vars ! 1)
   \<and> loopBody basicField two_vars 1 [esc_ia]
       = Continue (two_vars[0 := (two_vars ! 0)\<lparr>resolved := False, val := []\<rparr>]) 0 []
   \<and> \<not> resolved ((two_vars[0 := (two_vars ! 0)\<lparr>resolved := False, val := []\<rparr>]) ! 0)"
proof -
  have h: "2 \<le> length two_vars" "resolved (two_vars ! 0)" "\<not> resolved (two_vars ! 1)"
    "resolveVar basicField (def (two_vars ! 1)) (buildScope two_vars) esc_ia (prefill (two_vars ! 1))
       = Result [] True"
    by code_simp+
  from goBack_from_second[OF h, of "[]"] h show ?thesis by blast
qed

lemma runProgram_input_enter:
  assumes "\<forall>k. KeyMsg k \<in> set ms \<longrightarrow> k \<noteq> ''ctrl+c'' \<and> k \<noteq> ''esc'' \<and> k \<noteq> ''enter''"
  shows "runProgram (inputUpdate ops) m (ms @ KeyMsg ''enter'' # later)
           = Finished (m\<lparr>textInputI := foldl (\<lambda>t x. tiUpdate ops x t) (textInputI m) ms,
                         valueI := tiValue ops (foldl (\<lambda>t x. tiUpdate ops x t) (textInputI m) ms)\<rparr>)"
  using assms
proof (induction ms arbitrary: m)
  case Nil
  show ?case by (simp add: inputUpdate_def inputHandleKeyPress_def)
next
  case (Cons x xs)
  have step: "inputUpdate ops m x = Some (m\<lparr>textInputI := tiUpdate ops x (textInputI m)\<rparr>, False)"
  proof (cases x)
    case (KeyMsg k)
    with Cons.prems have "k \<noteq> ''ctrl+c'' \<and> k \<noteq> ''esc'' \<and> k \<noteq> ''enter''" by simp
    with KeyMsg show ?thesis by (simp add: inputUpdate_def inputHandleKeyPress_def)
  qed (simp_all add: inputUpdate_def)
  from Cons.prems have "\<forall>k. KeyMsg k \<in> set xs \<longrightarrow> k \<noteq> ''ctrl+c'' \<and> k \<noteq> ''esc'' \<and> k \<noteq> ''enter''"
    by simp
  from Cons.IH[OF this, of "m\<lparr>textInputI := tiUpdate ops x (textInputI m)\<rparr>"] step
  show ?case by simp
qed

lemma isExit_eq: "isExit r \<Longrightarrow> r = ProcessExit"
  by (cases r) (simp_all add: isExit_def)

definition exit_cheat :: Cheat where
  "exit_cheat = \<lparr>Command = ''echo $x'', Imports = [], Vars = [], Scope = Map.empty\<rparr>"

definition exit_ia :: interaction where
  "exit_ia = \<lparr>scopeOrder = [], RunShell = noShell,
              tui = Messages (typed ''__EXIT__'' @ [KeyMsg ''enter''])\<rparr>"

text \<open>
  Claim C1 as stated fails. In a one-variable session the user types the text
  \<open>__EXIT__\<close> into the text entry and presses enter: the screen returns that value with
  no go-back flag, and the session terminates the process instead of recording it.
\<close>

theorem submitted_exit_text_terminates:
  "PromptWithTUI basicField [] (tui exit_ia) = Result ''__EXIT__'' False
   \<and> resolveAllVariables basicField (\<lambda>_. []) exit_cheat \<lparr>Modules = []\<rparr> [exit_ia] = ProcessExit"
proof
  show "PromptWithTUI basicField [] (tui exit_ia) = Result ''__EXIT__'' False" by code_simp
next
  have "isExit (resolveAllVariables basicField (\<lambda>_. []) exit_cheat \<lparr>Modules = []\<rparr> [exit_ia])"
    by code_simp
  then show "resolveAllVariables basicField (\<lambda>_. []) exit_cheat \<lparr>Modules = []\<rparr> [exit_ia] = ProcessExit"
    by (rule isExit_eq)
qed

text \<open>
  Claim C1, amended. The screens return a triple of value, go-back flag and error, in
  which the value \<open>__EXIT__\<close> is the exit signal. Text submitted with enter in the text
  entry is returned as the value, whatever it is, and so is the value selected or typed
  in the selection screen. The session records a returned value
  other than \<open>__EXIT__\<close> as the variable's resolved value and advances; the value
  \<open>__EXIT__\<close> terminates the process.
\<close>

theorem submitted_value_recorded:
  "((\<forall>k. KeyMsg k \<in> set ms \<longrightarrow> k \<noteq> ''ctrl+c'' \<and> k \<noteq> ''esc'' \<and> k \<noteq> ''enter'') \<longrightarrow>
      PromptWithTUI ops pre (Messages (ms @ KeyMsg ''enter'' # later))
        = Result (tiValue ops (foldl (\<lambda>t x. tiUpdate ops x t) (textInputI (newVarInputModel ops pre)) ms)) False)
   \<and> (0 \<le> i \<and> i < int (length vars) \<and> \<not> resolved (vars ! nat i)
       \<and> resolveVar ops (def (vars ! nat i)) (buildScope vars) ia (prefill (vars ! nat i)) = Result v False
       \<longrightarrow> loopBody ops vars i (ia # rest)
             = (if v = EXIT then Stop Exit
                else Continue (vars[nat i := (vars ! nat i)\<lparr>val := v, resolved := True\<rparr>]) (i + 1) rest))
   \<and> (runProgram (selectUpdate ops) (newVarSelectModel ops opts pre) ms = Finished r
       \<and> \<not> cancelled r
       \<longrightarrow> SelectWithTUI ops opts pre (Messages ms) = Result (selected r) False)"
proof (intro conjI impI)
  assume "\<forall>k. KeyMsg k \<in> set ms \<longrightarrow> k \<noteq> ''ctrl+c'' \<and> k \<noteq> ''esc'' \<and> k \<noteq> ''enter''"
  from runProgram_input_enter[OF this, of ops "newVarInputModel ops pre" later]
  show "PromptWithTUI ops pre (Messages (ms @ KeyMsg ''enter'' # later))
        = Result (tiValue ops (foldl (\<lambda>t x. tiUpdate ops x t) (textInputI (newVarInputModel ops pre)) ms)) False"
    by (simp add: PromptWithTUI_def newVarInputModel_def)
next
  assume "0 \<le> i \<and> i < int (length vars) \<and> \<not> resolved (vars ! nat i)
       \<and> resolveVar ops (def (vars ! nat i)) (buildScope vars) ia (prefill (vars ! nat i)) = Result v False"
  then show "loopBody ops vars i (ia # rest)
             = (if v = EXIT then Stop Exit
                else Continue (vars[nat i := (vars ! nat i)\<lparr>val := v, resolved := True\<rparr>]) (i + 1) rest)"
    by (simp add: loopBody_def Let_def)
next
  assume "runProgram (selectUpdate ops) (newVarSelectModel ops opts pre) ms = Finished r
       \<and> \<not> cancelled r"
  then show "SelectWithTUI ops opts pre (Messages ms) = Result (selected r) False"
    by (simp add: SelectWithTUI_def)
qed

theorem submitted_value_recorded_witness:
  "PromptWithTUI basicField [] (Messages (typed ''dev'' @ KeyMsg ''enter'' # [])) = Result ''dev'' False
   \<and> loopBody basicField [newVarState (synthetic ''a'')] 0
        [\<lparr>scopeOrder = [], RunShell = noShell, tui = Messages (typed ''dev'' @ [KeyMsg ''enter''])\<rparr>]
      = Continue [\<lparr>def = synthetic ''a'', val = ''dev'', resolved = True, prefill = []\<rparr>] 1 []
   \<and> SelectWithTUI basicField [''eu-west'', ''us-east''] [] (Messages [KeyMsg ''down'', KeyMsg ''enter''])
      = Result ''us-east'' False"
proof -
  let ?ia = "\<lparr>scopeOrder = [], RunShell = noShell, tui = Messages (typed ''dev'' @ [KeyMsg ''enter''])\<rparr>"
  let ?vars = "[newVarState (synthetic ''a'')]"
  let ?r = "\<lparr>options = [''eu-west'', ''us-east''], filtered = [''eu-west'', ''us-east''], cursor = 1,
             textInput = [], selected = ''us-east'', cancelled = False\<rparr>"
  note T = submitted_value_recorded[where ms = "typed ''dev''" and ops = basicField and pre = "[]"
      and later = "[]" and i = 0 and vars = ?vars and ia = ?ia and v = "''dev''" and rest = "[]"]
  note S = submitted_value_recorded[where ms = "[KeyMsg ''down'', KeyMsg ''enter'']" and ops = basicField
      and pre = "[]" and opts = "[''eu-west'', ''us-east'']" and r = ?r]
  have k: "\<forall>k. KeyMsg k \<in> set (typed ''dev'') \<longrightarrow> k \<noteq> ''ctrl+c'' \<and> k \<noteq> ''esc'' \<and> k \<noteq> ''enter''"
    by (auto simp: typed_def)
  have f: "tiValue basicField (foldl (\<lambda>t x. tiUpdate basicField x t)
              (textInputI (newVarInputModel basicField [])) (typed ''dev'')) = ''dev''"
    by code_simp
  have a: "PromptWithTUI basicField [] (Messages (typed ''dev'' @ KeyMsg ''enter'' # [])) = Result ''dev'' False"
    using conjunct1[OF T, THEN mp, OF k] f by simp
  have h: "(0::int) \<le> 0 \<and> 0 < int (length ?vars) \<and> \<not> resolved (?vars ! nat 0)
       \<and> resolveVar basicField (def (?vars ! nat 0)) (buildScope ?vars) ?ia (prefill (?vars ! nat 0))
           = Result ''dev'' False"
    by code_simp
  have ne: "''dev'' \<noteq> EXIT" by code_simp
  have b: "loopBody basicField ?vars 0 [?ia]
      = Continue [\<lparr>def = synthetic ''a'', val = ''dev'', resolved = True, prefill = []\<rparr>] 1 []"
    using conjunct1[OF conjunct2[OF T], THEN mp, OF h] ne by (simp add: newVarState_def)
  have g: "runProgram (selectUpdate basicField) (newVarSelectModel basicField [''eu-west'', ''us-east''] [])
             [KeyMsg ''down'', KeyMsg ''enter''] = Finished ?r \<and> \<not> cancelled ?r"
    by code_simp
  have c: "SelectWithTUI basicField [''eu-west'', ''us-east''] [] (Messages [KeyMsg ''down'', KeyMsg ''enter''])
      = Result ''us-east'' False"
    using conjunct2[OF conjunct2[OF S], THEN mp, OF g] by simp
  from a b c show ?thesis by blast
qed

text \<open>
  A forward session: \<open>resolveFirst k vars vals\<close> is the state list after the first
  \<open>k\<close> variables received the values \<open>vals\<close>.
\<close>

definition markResolved :: "varState \<Rightarrow> string \<Rightarrow> varState" where
  "markResolved vs v = vs\<lparr>val := v, resolved := True\<rparr>"

definition resolveFirst :: "nat \<Rightarrow> varState list \<Rightarrow> string list \<Rightarrow> varState list" where
  "resolveFirst k vars vals = take k (map2 markResolved vars vals) @ drop k vars"







lemma prefillFromEnv_length: "length (prefillFromEnv getenv vars) = length vars"
  by (simp add: prefillFromEnv_def)




lemma resolveFirst_all:
  "length vals = length vars \<Longrightarrow> resolveFirst (length vars) vars vals = map2 markResolved vars vals"
  by (simp add: resolveFirst_def)






end
